theory Spec2Isabelle
  imports Main "HOL-Library.Word" "HOL-Library.FSet"
begin

section \<open>Data model of the signature cache (txscript/sigcache.go)\<close>

type_synonym byte = "8 word"

text \<open>
  Modelled from the spec: the constant \<open>wire.HashSize\<close> is declared in the \<open>wire\<close>
  package; the cache entry key is a fixed-length 256-bit value, that is 32 bytes.
\<close>

definition HashSize :: nat where
  "HashSize = 32"

text \<open>
  \<open>type sigKey [wire.HashSize]byte\<close>: an array of bytes, kept as the list of its
  elements. Every key that \<open>newSigKey\<close> builds has exactly \<open>HashSize\<close> elements.
\<close>

type_synonym sigKey = "byte list"

text \<open>
  The three library functions that \<open>newSigKey\<close> calls are not part of the cache and are
  parameters of the model: the digest computed by a \<open>sha256\<close> hasher over all the bytes
  written to it, \<open>(*btcec.Signature).Serialize\<close> and
  \<open>(*btcec.PublicKey).SerializeCompressed\<close>.
\<close>

record ('sig, 'pk) primitives =
  sha256 :: "byte list \<Rightarrow> byte list"
  Serialize :: "'sig \<Rightarrow> byte list"
  SerializeCompressed :: "'pk \<Rightarrow> byte list"

text \<open>
  \<open>copy(key[:], hasher.Sum(nil))\<close> into the zero-initialised array \<open>key\<close>: the first
  \<open>HashSize\<close> bytes of the digest, the rest of the array (if any) left zero.
\<close>

definition copy_key :: "byte list \<Rightarrow> sigKey" where
  "copy_key digest = take HashSize digest @ replicate (HashSize - length digest) 0"

definition newSigKey ::
  "('sig, 'pk) primitives \<Rightarrow> byte list \<Rightarrow> byte list \<Rightarrow> 'sig \<Rightarrow> 'pk \<Rightarrow> sigKey" where
  "newSigKey P nonce sigHash sig pubKey =
     (let hasher = [];
          hasher = hasher @ nonce;
          hasher = hasher @ sigHash;
          hasher = hasher @ Serialize P sig;
          hasher = hasher @ SerializeCompressed P pubKey
      in copy_key (sha256 P hasher))"

text \<open>
  \<open>bytes.Compare\<close> of the Go standard library: the lexicographic comparison of two byte
  slices, \<open>0\<close> if equal, \<open>-1\<close> if the first is less, \<open>+1\<close> if it is greater.
\<close>

fun bytes_Compare :: "byte list \<Rightarrow> byte list \<Rightarrow> int" where
  "bytes_Compare [] [] = 0"
| "bytes_Compare [] (b # bs) = - 1"
| "bytes_Compare (a # as) [] = 1"
| "bytes_Compare (a # as) (b # bs) =
     (if a < b then - 1 else if b < a then 1 else bytes_Compare as bs)"

text \<open>
  \<open>struct SigCache\<close>. The map \<open>map[sigKey]struct{}\<close> carries no value besides the
  presence of a key: it is the finite set of its keys, \<open>len\<close> is \<open>fcard\<close>. The lock does
  not appear: every operation below runs from its \<open>Lock\<close> to its \<open>Unlock\<close> as one step.
  \<open>maxEntries\<close> is a \<open>uint\<close>, taken at 64 bits.
\<close>

record SigCache =
  validSigs :: "sigKey fset"
  maxEntries :: "64 word"
  cacheNonce :: "byte list"

datatype error = RandReadError

text \<open>
  \<open>NewSigCache\<close>. The argument \<open>rnd\<close> is the outcome of \<open>rand.Read(cache.cacheNonce[:])\<close>:
  \<open>None\<close> when it returns an error, otherwise the bytes read.
\<close>

definition NewSigCache :: "64 word \<Rightarrow> byte list option \<Rightarrow> error + SigCache" where
  "NewSigCache maxEntries' rnd =
     (case rnd of
        None \<Rightarrow> Inl RandReadError
      | Some nonce \<Rightarrow>
          Inr \<lparr>validSigs = {||}, maxEntries = maxEntries', cacheNonce = nonce\<rparr>)"

definition SigCache_Exists ::
  "('sig, 'pk) primitives \<Rightarrow> SigCache \<Rightarrow> byte list \<Rightarrow> 'sig \<Rightarrow> 'pk \<Rightarrow> bool" where
  "SigCache_Exists P s sigHash sig pubKey =
     (let key = newSigKey P (cacheNonce s) sigHash sig pubKey
      in key |\<in>| validSigs s)"

definition zeroEntry :: sigKey where
  "zeroEntry = replicate HashSize 0"

text \<open>
  The loop \<open>for sigEntry := range s.validSigs\<close> of \<open>Add\<close>, over the entries in the order
  in which this \<open>range\<close> visits them; the first argument is \<open>foundEntry\<close>, and the
  \<open>break\<close> ends the recursion.
\<close>

fun SigCache_scan :: "sigKey \<Rightarrow> byte list \<Rightarrow> sigKey list \<Rightarrow> sigKey" where
  "SigCache_scan foundEntry randHashBytes [] = foundEntry"
| "SigCache_scan foundEntry randHashBytes (sigEntry # rest) =
     (let foundEntry = (if foundEntry = zeroEntry then sigEntry else foundEntry)
      in if bytes_Compare sigEntry randHashBytes > 0 then sigEntry
         else SigCache_scan foundEntry randHashBytes rest)"

text \<open>
  The test \<open>uint(len(s.validSigs)+1) > s.maxEntries\<close>: the sum is converted to \<open>uint\<close>,
  so it is taken modulo \<open>2 ^ 64\<close>.
\<close>

definition evictionNeeded :: "SigCache \<Rightarrow> bool" where
  "evictionNeeded s \<longleftrightarrow> word_of_nat (fcard (validSigs s) + 1) > maxEntries s"

text \<open>
  \<open>(*SigCache).Add\<close>. Two arguments stand for what the environment decides: \<open>rnd\<close> is
  the outcome of \<open>rand.Read(randHashBytes)\<close> (\<open>None\<close> for an error), read only when an
  eviction is needed, and \<open>order\<close> is the order in which \<open>range\<close> visits the keys of the
  map in this call.
\<close>

definition SigCache_Add ::
  "('sig, 'pk) primitives \<Rightarrow> SigCache \<Rightarrow> byte list \<Rightarrow> 'sig \<Rightarrow> 'pk \<Rightarrow>
     byte list option \<Rightarrow> sigKey list \<Rightarrow> SigCache" where
  "SigCache_Add P s sigHash sig pubKey rnd order =
     (if maxEntries s \<le> 0 then s
      else if evictionNeeded s then
        (case rnd of
           None \<Rightarrow> s
         | Some randHashBytes \<Rightarrow>
             (let foundEntry = SigCache_scan zeroEntry randHashBytes order;
                  s = s\<lparr>validSigs := validSigs s |-| {|foundEntry|}\<rparr>;
                  key = newSigKey P (cacheNonce s) sigHash sig pubKey
              in s\<lparr>validSigs := finsert key (validSigs s)\<rparr>))
      else
        (let key = newSigKey P (cacheNonce s) sigHash sig pubKey
         in s\<lparr>validSigs := finsert key (validSigs s)\<rparr>))"

text \<open>
  What Go guarantees of a \<open>range\<close> over a map that the loop does not modify: every key
  is visited exactly once, in an order that is not specified.
\<close>

definition range_order :: "sigKey fset \<Rightarrow> sigKey list \<Rightarrow> bool" where
  "range_order m order \<longleftrightarrow> distinct order \<and> fset_of_list order = m"

text \<open>
  A sequence of \<open>Add\<close> calls: each call has its three arguments and the two outcomes
  that the environment decides for it.
\<close>

record ('sig, 'pk) add_call =
  arg_sigHash :: "byte list"
  arg_sig :: 'sig
  arg_pubKey :: 'pk
  env_rnd :: "byte list option"
  env_order :: "sigKey list"

fun SigCache_Adds ::
  "('sig, 'pk) primitives \<Rightarrow> SigCache \<Rightarrow> ('sig, 'pk) add_call list \<Rightarrow> SigCache" where
  "SigCache_Adds P s [] = s"
| "SigCache_Adds P s (c # cs) =
     SigCache_Adds P
       (SigCache_Add P s (arg_sigHash c) (arg_sig c) (arg_pubKey c) (env_rnd c) (env_order c)) cs"

text \<open>Every call of the sequence iterates over the map as it is when the call is made.\<close>

fun range_orders ::
  "('sig, 'pk) primitives \<Rightarrow> SigCache \<Rightarrow> ('sig, 'pk) add_call list \<Rightarrow> bool" where
  "range_orders P s [] = True"
| "range_orders P s (c # cs) =
     (range_order (validSigs s) (env_order c) \<and>
      range_orders P
        (SigCache_Add P s (arg_sigHash c) (arg_sig c) (arg_pubKey c) (env_rnd c) (env_order c)) cs)"

section \<open>The string-keyed variant (txscript/sigcache_string.go)\<close>

text \<open>A Go \<open>string\<close> is a sequence of bytes; \<open>string(hasher.Sum(nil))\<close> is the whole digest.\<close>

definition newSigKeyString ::
  "('sig, 'pk) primitives \<Rightarrow> byte list \<Rightarrow> byte list \<Rightarrow> 'sig \<Rightarrow> 'pk \<Rightarrow> byte list" where
  "newSigKeyString P nonce sigHash sig pubKey =
     (let hasher = [];
          hasher = hasher @ nonce;
          hasher = hasher @ sigHash;
          hasher = hasher @ Serialize P sig;
          hasher = hasher @ SerializeCompressed P pubKey
      in sha256 P hasher)"

record StringSigCache =
  validSigs_str :: "byte list fset"
  maxEntries_str :: "64 word"
  cacheNonce_str :: "byte list"



text \<open>The loop of the string variant: \<open>foundEntry\<close> starts as the empty string.\<close>

fun StringSigCache_scan :: "byte list \<Rightarrow> byte list \<Rightarrow> byte list list \<Rightarrow> byte list" where
  "StringSigCache_scan foundEntry randHashBytes [] = foundEntry"
| "StringSigCache_scan foundEntry randHashBytes (sigEntry # rest) =
     (let foundEntry = (if foundEntry = [] then sigEntry else foundEntry)
      in if bytes_Compare sigEntry randHashBytes > 0 then sigEntry
         else StringSigCache_scan foundEntry randHashBytes rest)"

definition evictionNeeded_str :: "StringSigCache \<Rightarrow> bool" where
  "evictionNeeded_str s \<longleftrightarrow> word_of_nat (fcard (validSigs_str s) + 1) > maxEntries_str s"

definition StringSigCache_Add ::
  "('sig, 'pk) primitives \<Rightarrow> StringSigCache \<Rightarrow> byte list \<Rightarrow> 'sig \<Rightarrow> 'pk \<Rightarrow>
     byte list option \<Rightarrow> byte list list \<Rightarrow> StringSigCache" where
  "StringSigCache_Add P s sigHash sig pubKey rnd order =
     (if maxEntries_str s \<le> 0 then s
      else if evictionNeeded_str s then
        (case rnd of
           None \<Rightarrow> s
         | Some randHashBytes \<Rightarrow>
             (let foundEntry = StringSigCache_scan [] randHashBytes order;
                  s = s\<lparr>validSigs_str := validSigs_str s |-| {|foundEntry|}\<rparr>
              in s\<lparr>validSigs_str :=
                     finsert (newSigKeyString P (cacheNonce_str s) sigHash sig pubKey)
                       (validSigs_str s)\<rparr>))
      else
        s\<lparr>validSigs_str :=
             finsert (newSigKeyString P (cacheNonce_str s) sigHash sig pubKey)
               (validSigs_str s)\<rparr>)"


section \<open>Concrete inputs\<close>

text \<open>
  Stand-ins for the three library functions, used to run the cache on concrete inputs:
  signatures and public keys are byte lists that serialise to themselves, and the digest
  is 32 copies of the last byte written.
\<close>

definition example_primitives :: "(byte list, byte list) primitives" where
  "example_primitives =
     \<lparr>sha256 = (\<lambda>bs. replicate HashSize (last bs)), Serialize = id, SerializeCompressed = id\<rparr>"

text \<open>The key of 32 bytes \<open>b\<close>.\<close>

definition key_of :: "byte \<Rightarrow> sigKey" where
  "key_of b = replicate HashSize b"

section \<open>Properties\<close>

subsection \<open>Evaluation on concrete inputs\<close>

lemma key_of_eq [simp]: "key_of a = key_of b \<longleftrightarrow> a = b"
  by (simp add: key_of_def HashSize_def)

lemma bytes_Compare_replicate:
  "bytes_Compare (replicate n a) (replicate n b) =
     (if n = 0 then 0 else if a < b then - 1 else if b < a then 1 else 0)"
  by (induction n) auto

lemma bytes_Compare_key_of [simp]:
  "bytes_Compare (key_of a) (key_of b) = (if a < b then - 1 else if b < a then 1 else 0)"
  by (simp add: key_of_def bytes_Compare_replicate HashSize_def)

lemma zeroEntry_key_of: "zeroEntry = key_of 0"
  by (simp add: zeroEntry_def key_of_def)

lemma example_newSigKey [simp]:
  "newSigKey example_primitives nonce sigHash sig [b] = key_of b"
  by (simp add: newSigKey_def example_primitives_def copy_key_def key_of_def)

lemma example_newSigKeyString [simp]:
  "newSigKeyString example_primitives nonce sigHash sig [b] = key_of b"
  by (simp add: newSigKeyString_def example_primitives_def key_of_def)

lemmas fset_eval = fcard_fempty fcard_finsert_if finsert_fminus_if

subsection \<open>Basic facts about \<open>Add\<close>\<close>

lemma word_ge_1_conv: "1 \<le> (w :: 64 word) \<longleftrightarrow> w \<noteq> 0"
  by (simp add: word_le_nat_alt Suc_le_eq unat_gt_0)

lemma SigCache_Add_nonce [simp]:
  "cacheNonce (SigCache_Add P s sigHash sig pubKey rnd order) = cacheNonce s"
  by (simp add: SigCache_Add_def Let_def split: option.split)

lemma SigCache_Add_maxEntries [simp]:
  "maxEntries (SigCache_Add P s sigHash sig pubKey rnd order) = maxEntries s"
  by (simp add: SigCache_Add_def Let_def split: option.split)

lemma SigCache_Add_disabled: "maxEntries s = 0 \<Longrightarrow> SigCache_Add P s sigHash sig pubKey rnd order = s"
  by (simp add: SigCache_Add_def)

lemma SigCache_Add_evict:
  "maxEntries s \<noteq> 0 \<Longrightarrow> evictionNeeded s \<Longrightarrow>
   validSigs (SigCache_Add P s sigHash sig pubKey (Some r) order) =
     finsert (newSigKey P (cacheNonce s) sigHash sig pubKey)
       (validSigs s |-| {|SigCache_scan zeroEntry r order|})"
  by (simp add: SigCache_Add_def Let_def)

lemma SigCache_Add_room:
  "maxEntries s \<noteq> 0 \<Longrightarrow> \<not> evictionNeeded s \<Longrightarrow>
   validSigs (SigCache_Add P s sigHash sig pubKey rnd order) =
     finsert (newSigKey P (cacheNonce s) sigHash sig pubKey) (validSigs s)"
  by (simp add: SigCache_Add_def Let_def)

lemma SigCache_Adds_disabled: "maxEntries s = 0 \<Longrightarrow> SigCache_Adds P s calls = s"
  by (induction calls) (simp_all add: SigCache_Add_disabled)

subsection \<open>The eviction scan\<close>

lemma SigCache_scan_mem: "SigCache_scan foundEntry r order \<in> insert foundEntry (set order)"
  by (induction order arbitrary: foundEntry) (auto simp: Let_def)

lemma SigCache_scan_resident: "order \<noteq> [] \<Longrightarrow> SigCache_scan zeroEntry r order \<in> set order"
proof (cases order)
  case Nil
  assume "order \<noteq> []"
  with Nil show ?thesis by simp
next
  case (Cons e rest)
  have "SigCache_scan e r rest \<in> insert e (set rest)"
    by (rule SigCache_scan_mem)
  with Cons show ?thesis by (simp add: Let_def)
qed

lemma SigCache_scan_none_greater:
  "foundEntry \<noteq> zeroEntry \<Longrightarrow> \<forall>e \<in> set order. \<not> bytes_Compare e r > 0 \<Longrightarrow>
   SigCache_scan foundEntry r order = foundEntry"
  by (induction order) (simp_all add: Let_def)







subsection \<open>The capacity bound\<close>

lemma evictionNeeded_nat:
  "evictionNeeded s \<longleftrightarrow> unat (maxEntries s) < (fcard (validSigs s) + 1) mod 2 ^ 64"
  unfolding evictionNeeded_def word_less_nat_alt unat_of_nat by simp

lemma unat_max64: "unat (w :: 64 word) < 2 ^ 64"
  using unsigned_less [of w, where ?'a = nat] by simp

lemma range_order_set: "range_order m order \<Longrightarrow> set order = fset m"
  by (auto simp: range_order_def fset_of_list.rep_eq)

lemma fcard_evict_insert:
  assumes "v |\<in>| A"
  shows "fcard (finsert k (A |-| {|v|})) \<le> fcard A"
proof -
  have "fcard (finsert k (A |-| {|v|})) \<le> Suc (fcard (A |-| {|v|}))"
    by (simp add: fcard_finsert_if)
  also from assms have "\<dots> = fcard A"
    by (rule fcard_Suc_fminus1)
  finally show ?thesis .
qed

text \<open>When an eviction takes place, the entry that the scan selects is in the map.\<close>

lemma victim_resident:
  assumes ro: "range_order (validSigs s) order" and m: "maxEntries s \<noteq> 0"
    and e: "evictionNeeded s"
  shows "SigCache_scan zeroEntry r order |\<in>| validSigs s"
proof -
  have "validSigs s \<noteq> {||}"
  proof
    assume "validSigs s = {||}"
    with e have "unat (maxEntries s) < 1" by (simp add: evictionNeeded_nat fcard_fempty)
    with m show False by (simp add: unat_eq_0)
  qed
  with ro have "order \<noteq> []" by (auto simp: range_order_def)
  then have "SigCache_scan zeroEntry r order \<in> set order" by (rule SigCache_scan_resident)
  with ro show ?thesis by (simp add: range_order_set)
qed

text \<open>
  The invariant of \<open>Add\<close>. Its second case is a count that no longer fits a \<open>uint\<close>,
  which the test of \<open>Add\<close> reads modulo \<open>2 ^ 64\<close>; \<open>len\<close> of a Go map is an \<open>int\<close>, so
  this case does not arise in a running program.
\<close>

lemma capacity_step:
  assumes ro: "range_order (validSigs s) order"
    and inv: "fcard (validSigs s) \<le> unat (maxEntries s) \<or>
              (2 ^ 64 \<le> fcard (validSigs s) \<and> maxEntries s = - 1)"
  shows "fcard (validSigs (SigCache_Add P s sigHash sig pubKey rnd order)) \<le> unat (maxEntries s) \<or>
         (2 ^ 64 \<le> fcard (validSigs (SigCache_Add P s sigHash sig pubKey rnd order)) \<and>
          maxEntries s = - 1)"
proof (cases "maxEntries s = 0")
  case True
  with inv show ?thesis by (simp add: SigCache_Add_disabled)
next
  case m: False
  show ?thesis
  proof (cases "evictionNeeded s")
    case e: True
    show ?thesis
    proof (cases rnd)
      case None
      from e have "SigCache_Add P s sigHash sig pubKey None order = s"
        by (simp add: SigCache_Add_def)
      with None inv show ?thesis by simp
    next
      case (Some r)
      from e have "maxEntries s \<noteq> - 1"
        by (auto simp: evictionNeeded_def)
      with inv have le: "fcard (validSigs s) \<le> unat (maxEntries s)" by simp
      have "SigCache_scan zeroEntry r order |\<in>| validSigs s"
        using ro m e by (rule victim_resident)
      then have "fcard (finsert (newSigKey P (cacheNonce s) sigHash sig pubKey)
          (validSigs s |-| {|SigCache_scan zeroEntry r order|})) \<le> fcard (validSigs s)"
        by (rule fcard_evict_insert)
      with le Some show ?thesis
        by (simp add: SigCache_Add_evict [OF m e])
    qed
  next
    case ne: False
    let ?A = "validSigs s" and ?k = "newSigKey P (cacheNonce s) sigHash sig pubKey"
    have new: "validSigs (SigCache_Add P s sigHash sig pubKey rnd order) = finsert ?k ?A"
      using m ne by (rule SigCache_Add_room)
    have up: "fcard (finsert ?k ?A) \<le> fcard ?A + 1"
      and down: "fcard ?A \<le> fcard (finsert ?k ?A)"
      by (simp_all add: fcard_finsert_if)
    from ne have g: "(fcard ?A + 1) mod 2 ^ 64 \<le> unat (maxEntries s)"
      by (simp add: evictionNeeded_nat)
    from inv show ?thesis
    proof
      assume le: "fcard ?A \<le> unat (maxEntries s)"
      show ?thesis
      proof (cases "fcard ?A + 1 < 2 ^ 64")
        case True
        with g have "fcard ?A + 1 \<le> unat (maxEntries s)" by simp
        with up new show ?thesis by simp
      next
        case False
        with le unat_max64 [of "maxEntries s"]
        have eq: "unat (maxEntries s) = 2 ^ 64 - 1" and c: "fcard ?A = 2 ^ 64 - 1"
          by simp_all
        have "unat (- 1 :: 64 word) = 2 ^ 64 - 1"
          by (simp add: unsigned_minus_1_eq_mask mask_eq_exp_minus_1)
        with eq have "maxEntries s = - 1"
          by (simp add: word_unat_eq_iff)
        with eq c up down new show ?thesis by auto
      qed
    next
      assume "2 ^ 64 \<le> fcard ?A \<and> maxEntries s = - 1"
      with down new show ?thesis by simp
    qed
  qed
qed

lemma SigCache_Adds_maxEntries [simp]: "maxEntries (SigCache_Adds P s calls) = maxEntries s"
  by (induction calls arbitrary: s) simp_all

lemma SigCache_Adds_nonce [simp]: "cacheNonce (SigCache_Adds P s calls) = cacheNonce s"
  by (induction calls arbitrary: s) simp_all

lemma capacity_run:
  "range_orders P s calls \<Longrightarrow>
   fcard (validSigs s) \<le> unat (maxEntries s) \<or>
     (2 ^ 64 \<le> fcard (validSigs s) \<and> maxEntries s = - 1) \<Longrightarrow>
   fcard (validSigs (SigCache_Adds P s calls)) \<le> unat (maxEntries s) \<or>
     (2 ^ 64 \<le> fcard (validSigs (SigCache_Adds P s calls)) \<and> maxEntries s = - 1)"
proof (induction calls arbitrary: s)
  case Nil
  then show ?case by simp
next
  case (Cons c cs)
  let ?s' = "SigCache_Add P s (arg_sigHash c) (arg_sig c) (arg_pubKey c) (env_rnd c) (env_order c)"
  from Cons.prems have ro: "range_order (validSigs s) (env_order c)"
    and rest: "range_orders P ?s' cs"
    by simp_all
  from ro Cons.prems(2)
  have "fcard (validSigs ?s') \<le> unat (maxEntries s) \<or>
      (2 ^ 64 \<le> fcard (validSigs ?s') \<and> maxEntries s = - 1)"
    by (rule capacity_step)
  with Cons.IH [OF rest] show ?case by simp
qed

subsection \<open>Keys that \<open>Add\<close> can leave in the map\<close>



subsection \<open>Distinct triples with the same key\<close>

lemma newSigKey_length: "length (newSigKey P nonce sigHash sig pubKey) = HashSize"
  by (simp add: newSigKey_def copy_key_def Let_def)

text \<open>
  A key has 32 bytes, and so has the digest \<open>sigHash\<close>: whatever the hash function,
  as soon as there are two signatures, two distinct triples derive the same key.
\<close>

lemma key_collision:
  fixes P :: "('sig, 'pk) primitives" and sig1 sig2 :: 'sig
  assumes "sig1 \<noteq> sig2"
  shows "\<exists>h1 s1 h2 s2. length h1 = HashSize \<and> length h2 = HashSize \<and> (h1, s1) \<noteq> (h2, s2) \<and>
           newSigKey P nonce h1 s1 pubKey = newSigKey P nonce h2 s2 pubKey"
proof -
  let ?K = "{xs :: byte list. length xs = HashSize}"
  let ?A = "?K \<times> {sig1, sig2}"
  let ?f = "\<lambda>(h, sg). newSigKey P nonce h sg pubKey"
  have finK: "finite ?K"
    using finite_lists_length_eq [of "UNIV :: byte set" HashSize] by simp
  have "replicate HashSize 0 \<in> ?K" by simp
  with finK have "0 < card ?K"
    by (metis card_gt_0_iff empty_iff)
  moreover from assms have "card ?A = card ?K * 2"
    by (simp add: card_cartesian_product)
  ultimately have less: "card ?K < card ?A" by simp
  have img: "?f ` ?A \<subseteq> ?K"
    by (auto simp: newSigKey_length)
  have "\<not> inj_on ?f ?A"
  proof
    assume "inj_on ?f ?A"
    then have "card ?A \<le> card ?K"
      using img finK by (rule card_inj_on_le)
    with less show False by simp
  qed
  then obtain x y where "x \<in> ?A" "y \<in> ?A" "x \<noteq> y" "?f x = ?f y"
    by (auto simp: inj_on_def)
  then show ?thesis
    by (cases x, cases y) (simp, blast)
qed

lemma false_positive_exists:
  fixes P :: "('sig, 'pk) primitives" and sig1 sig2 :: 'sig
  assumes "sig1 \<noteq> sig2" and "NewSigCache m rnd = Inr s0" and "m \<noteq> 0"
  shows "\<exists>h1 s1 h2 s2. (h1, s1) \<noteq> (h2, s2) \<and>
           SigCache_Exists P (SigCache_Add P s0 h1 s1 pubKey rnd' order) h2 s2 pubKey"
proof -
  from assms(2) have s0: "validSigs s0 = {||}" "maxEntries s0 = m"
    by (auto simp: NewSigCache_def split: option.splits)
  with assms(3) have m: "maxEntries s0 \<noteq> 0" and ne: "\<not> evictionNeeded s0"
    by (simp_all add: evictionNeeded_nat fcard_fempty unat_gt_0)
  from key_collision [OF assms(1), of P "cacheNonce s0" pubKey]
  obtain h1 s1 h2 s2 where d: "(h1, s1) \<noteq> (h2, s2)"
    and k: "newSigKey P (cacheNonce s0) h1 s1 pubKey = newSigKey P (cacheNonce s0) h2 s2 pubKey"
    by blast
  have "SigCache_Exists P (SigCache_Add P s0 h1 s1 pubKey rnd' order) h2 s2 pubKey"
    by (simp add: SigCache_Exists_def SigCache_Add_room [OF m ne] k)
  with d show ?thesis by blast
qed

subsection \<open>The two variants, away from the all-zero key\<close>



lemma StringSigCache_Add_maxEntries [simp]:
  "maxEntries_str (StringSigCache_Add P t sigHash sig pubKey rnd order) = maxEntries_str t"
  by (simp add: StringSigCache_Add_def Let_def split: option.split)

lemma StringSigCache_Add_nonce [simp]:
  "cacheNonce_str (StringSigCache_Add P t sigHash sig pubKey rnd order) = cacheNonce_str t"
  by (simp add: StringSigCache_Add_def Let_def split: option.split)



subsection \<open>Main results\<close>

text \<open>
  C1: on a store built by \<open>NewSigCache\<close> with any \<open>maxEntries\<close>, after any finite
  sequence of \<open>Add\<close> calls, whatever the random reads return and in whatever order each
  call iterates over the map, the number of entries is at most \<open>maxEntries\<close>. The number
  of entries is what \<open>len\<close> returns, a Go \<open>int\<close>, so it is below \<open>2 ^ 64\<close>.
\<close>

theorem capacity_bound:
  assumes "NewSigCache maxEntries' rnd = Inr s0"
    and "range_orders P s0 calls"
    and "fcard (validSigs (SigCache_Adds P s0 calls)) < 2 ^ 64"
  shows "fcard (validSigs (SigCache_Adds P s0 calls)) \<le> unat maxEntries'"
proof -
  from assms(1) have m: "maxEntries s0 = maxEntries'" and "validSigs s0 = {||}"
    by (auto simp: NewSigCache_def split: option.splits)
  then have "fcard (validSigs s0) \<le> unat (maxEntries s0) \<or>
      (2 ^ 64 \<le> fcard (validSigs s0) \<and> maxEntries s0 = - 1)"
    by (simp add: fcard_fempty)
  with assms(2)
  have "fcard (validSigs (SigCache_Adds P s0 calls)) \<le> unat (maxEntries s0) \<or>
      (2 ^ 64 \<le> fcard (validSigs (SigCache_Adds P s0 calls)) \<and> maxEntries s0 = - 1)"
    by (rule capacity_run)
  with assms(3) m show ?thesis by auto
qed

theorem capacity_bound_witness:
  "NewSigCache 1 (Some (key_of 9)) =
     Inr \<lparr>validSigs = {||}, maxEntries = 1, cacheNonce = key_of 9\<rparr> \<and>
   range_orders example_primitives \<lparr>validSigs = {||}, maxEntries = 1, cacheNonce = key_of 9\<rparr>
     [\<lparr>arg_sigHash = key_of 7, arg_sig = [48], arg_pubKey = [1],
        env_rnd = Some (key_of 5), env_order = []\<rparr>,
      \<lparr>arg_sigHash = key_of 7, arg_sig = [48], arg_pubKey = [2],
        env_rnd = Some (key_of 5), env_order = [key_of 1]\<rparr>] \<and>
   validSigs (SigCache_Adds example_primitives
     \<lparr>validSigs = {||}, maxEntries = 1, cacheNonce = key_of 9\<rparr>
     [\<lparr>arg_sigHash = key_of 7, arg_sig = [48], arg_pubKey = [1],
        env_rnd = Some (key_of 5), env_order = []\<rparr>,
      \<lparr>arg_sigHash = key_of 7, arg_sig = [48], arg_pubKey = [2],
        env_rnd = Some (key_of 5), env_order = [key_of 1]\<rparr>]) = {|key_of 2|} \<and>
   fcard (validSigs (SigCache_Adds example_primitives
     \<lparr>validSigs = {||}, maxEntries = 1, cacheNonce = key_of 9\<rparr>
     [\<lparr>arg_sigHash = key_of 7, arg_sig = [48], arg_pubKey = [1],
        env_rnd = Some (key_of 5), env_order = []\<rparr>,
      \<lparr>arg_sigHash = key_of 7, arg_sig = [48], arg_pubKey = [2],
        env_rnd = Some (key_of 5), env_order = [key_of 1]\<rparr>])) \<le> unat (1 :: 64 word)"
proof -
  let ?s0 = "\<lparr>validSigs = {||}, maxEntries = 1, cacheNonce = key_of 9\<rparr>"
  let ?calls = "[\<lparr>arg_sigHash = key_of 7, arg_sig = [48], arg_pubKey = [1],
        env_rnd = Some (key_of 5), env_order = []\<rparr>,
      \<lparr>arg_sigHash = key_of 7, arg_sig = [48], arg_pubKey = [2],
        env_rnd = Some (key_of 5), env_order = [key_of 1]\<rparr>]"
  have h1: "NewSigCache 1 (Some (key_of 9)) = Inr ?s0"
    by (simp add: NewSigCache_def)
  have h2: "range_orders example_primitives ?s0 ?calls"
    by (simp add: SigCache_Add_def evictionNeeded_def range_order_def fset_eval)
  have v: "validSigs (SigCache_Adds example_primitives ?s0 ?calls) = {|key_of 2|}"
    by (simp add: SigCache_Add_def evictionNeeded_def zeroEntry_key_of fset_eval)
  then have h3: "fcard (validSigs (SigCache_Adds example_primitives ?s0 ?calls)) < 2 ^ 64"
    by (simp add: fset_eval)
  from capacity_bound [OF h1 h2 h3] h1 h2 v show ?thesis by blast
qed

text \<open>
  C2: on a store with \<open>maxEntries \<ge> 1\<close>, when \<open>Add\<close> of a triple needs no eviction or
  its random read succeeds, \<open>Exists\<close> of the same triple on the resulting store, with no
  \<open>Add\<close> in between, returns true.
\<close>

theorem Add_then_Exists:
  "1 \<le> maxEntries s \<Longrightarrow> \<not> evictionNeeded s \<or> rnd \<noteq> None \<Longrightarrow>
   SigCache_Exists P (SigCache_Add P s sigHash sig pubKey rnd order) sigHash sig pubKey"
  by (auto simp: SigCache_Exists_def SigCache_Add_def Let_def word_ge_1_conv split: option.split)

theorem Add_then_Exists_witness:
  "(1 :: 64 word) \<le> 2 \<and>
   SigCache_Exists example_primitives
     (SigCache_Add example_primitives
        \<lparr>validSigs = {|key_of 1, key_of 2|}, maxEntries = 2, cacheNonce = key_of 9\<rparr>
        (key_of 7) [48] [3] (Some (key_of 1)) [key_of 1, key_of 2])
     (key_of 7) [48] [3]"
  using Add_then_Exists [of "\<lparr>validSigs = {|key_of 1, key_of 2|}, maxEntries = 2, cacheNonce = key_of 9\<rparr>"
      "Some (key_of 1)" example_primitives "key_of 7" "[48]" "[3]" "[key_of 1, key_of 2]"]
  by simp




text \<open>
  C4, as the code has it: \<open>Add\<close> does not look the key up before it evicts. With a
  triple whose key is already in the map, \<open>Add\<close> leaves the store unchanged when no
  eviction takes place (\<open>maxEntries = 0\<close>, room left, or a failed random read) or when
  the entry that the scan selects is that key itself. Otherwise the entry selected,
  another resident entry, is removed and nothing is added, so the number of entries
  drops by one.
\<close>

theorem Add_present_key:
  assumes "newSigKey P (cacheNonce s) sigHash sig pubKey |\<in>| validSigs s"
    and "range_order (validSigs s) order"
  shows "SigCache_Add P s sigHash sig pubKey None order = s \<and>
         (if maxEntries s = 0 \<or> \<not> evictionNeeded s \<or>
             SigCache_scan zeroEntry r order = newSigKey P (cacheNonce s) sigHash sig pubKey
          then SigCache_Add P s sigHash sig pubKey (Some r) order = s
          else SigCache_scan zeroEntry r order |\<in>| validSigs s \<and>
               validSigs (SigCache_Add P s sigHash sig pubKey (Some r) order) =
                 validSigs s |-| {|SigCache_scan zeroEntry r order|} \<and>
               Suc (fcard (validSigs (SigCache_Add P s sigHash sig pubKey (Some r) order))) =
                 fcard (validSigs s))"
proof -
  let ?k = "newSigKey P (cacheNonce s) sigHash sig pubKey"
  let ?v = "SigCache_scan zeroEntry r order"
  have absorb: "finsert ?k (validSigs s) = validSigs s"
    using assms(1) by (rule finsert_absorb)
  have none: "SigCache_Add P s sigHash sig pubKey None order = s"
    by (simp add: SigCache_Add_def Let_def absorb)
  have some: "if maxEntries s = 0 \<or> \<not> evictionNeeded s \<or> ?v = ?k
      then SigCache_Add P s sigHash sig pubKey (Some r) order = s
      else ?v |\<in>| validSigs s \<and>
        validSigs (SigCache_Add P s sigHash sig pubKey (Some r) order) = validSigs s |-| {|?v|} \<and>
        Suc (fcard (validSigs (SigCache_Add P s sigHash sig pubKey (Some r) order))) =
          fcard (validSigs s)"
  proof (cases "maxEntries s = 0 \<or> \<not> evictionNeeded s")
    case True
    then have "SigCache_Add P s sigHash sig pubKey (Some r) order = s"
      by (auto simp: SigCache_Add_def Let_def absorb)
    with True show ?thesis by auto
  next
    case False
    then have m: "maxEntries s \<noteq> 0" and e: "evictionNeeded s"
      by simp_all
    have v: "?v |\<in>| validSigs s"
      using assms(2) m e by (rule victim_resident)
    have new: "validSigs (SigCache_Add P s sigHash sig pubKey (Some r) order) =
        finsert ?k (validSigs s |-| {|?v|})"
      using m e by (rule SigCache_Add_evict)
    show ?thesis
    proof (cases "?v = ?k")
      case True
      then have "SigCache_Add P s sigHash sig pubKey (Some r) order = s"
        by (simp add: SigCache_Add_def Let_def m e absorb)
      with True show ?thesis by simp
    next
      case ne: False
      with assms(1) have "?k |\<in>| validSigs s |-| {|?v|}" by auto
      with new have eq: "validSigs (SigCache_Add P s sigHash sig pubKey (Some r) order) =
          validSigs s |-| {|?v|}"
        by (simp add: finsert_absorb)
      from v have "Suc (fcard (validSigs s |-| {|?v|})) = fcard (validSigs s)"
        by (rule fcard_Suc_fminus1)
      with eq v ne m e show ?thesis by simp
    qed
  qed
  from none some show ?thesis by (rule conjI)
qed

theorem Add_present_key_witness:
  "newSigKey example_primitives
     (cacheNonce \<lparr>validSigs = {|key_of 1, key_of 2|}, maxEntries = 2, cacheNonce = key_of 9\<rparr>)
     (key_of 7) [48] [1] |\<in>|
     validSigs \<lparr>validSigs = {|key_of 1, key_of 2|}, maxEntries = 2, cacheNonce = key_of 9\<rparr> \<and>
   range_order
     (validSigs \<lparr>validSigs = {|key_of 1, key_of 2|}, maxEntries = 2, cacheNonce = key_of 9\<rparr>)
     [key_of 2, key_of 1] \<and>
   validSigs (SigCache_Add example_primitives
     \<lparr>validSigs = {|key_of 1, key_of 2|}, maxEntries = 2, cacheNonce = key_of 9\<rparr>
     (key_of 7) [48] [1] (Some (key_of 1)) [key_of 2, key_of 1]) =
     {|key_of 1, key_of 2|} |-| {|key_of 2|} \<and>
   SigCache_Add example_primitives
     \<lparr>validSigs = {|key_of 1, key_of 2|}, maxEntries = 2, cacheNonce = key_of 9\<rparr>
     (key_of 7) [48] [1] (Some (key_of 2)) [key_of 1, key_of 2] =
     \<lparr>validSigs = {|key_of 1, key_of 2|}, maxEntries = 2, cacheNonce = key_of 9\<rparr>"
proof -
  let ?s = "\<lparr>validSigs = {|key_of 1, key_of 2|}, maxEntries = 2, cacheNonce = key_of 9\<rparr>"
  have h1: "newSigKey example_primitives (cacheNonce ?s) (key_of 7) [48] [1] |\<in>| validSigs ?s"
    by simp
  have h2: "range_order (validSigs ?s) [key_of 2, key_of 1]"
    by (auto simp: range_order_def)
  have h2': "range_order (validSigs ?s) [key_of 1, key_of 2]"
    by (auto simp: range_order_def)
  have e: "evictionNeeded ?s"
    by (simp add: evictionNeeded_def fset_eval)
  have v: "SigCache_scan zeroEntry (key_of 1) [key_of 2, key_of 1] = key_of 2"
    by (simp add: zeroEntry_key_of)
  have v': "SigCache_scan zeroEntry (key_of 2) [key_of 1, key_of 2] = key_of 1"
    by (simp add: zeroEntry_key_of)
  from Add_present_key [OF h1 h2, of "key_of 1"] e v
  have a: "validSigs (SigCache_Add example_primitives ?s (key_of 7) [48] [1] (Some (key_of 1))
      [key_of 2, key_of 1]) = {|key_of 1, key_of 2|} |-| {|key_of 2|}"
    by simp
  from Add_present_key [OF h1 h2', of "key_of 2"] e v'
  have b: "SigCache_Add example_primitives ?s (key_of 7) [48] [1] (Some (key_of 2))
      [key_of 1, key_of 2] = ?s"
    by simp
  from h1 h2 a b show ?thesis by blast
qed

text \<open>
  C4 as stated fails: the store holds two entries with \<open>maxEntries = 2\<close>, the triple
  added derives the key of the first, the scan visits the second entry first and its key
  is greater than the draw. The second entry is evicted and the count drops from 2 to 1.
\<close>

theorem Add_present_key_counterexample:
  "newSigKey example_primitives (key_of 9) (key_of 7) [48] [1] |\<in>| {|key_of 1, key_of 2|} \<and>
   range_order {|key_of 1, key_of 2|} [key_of 2, key_of 1] \<and>
   validSigs (SigCache_Add example_primitives
     \<lparr>validSigs = {|key_of 1, key_of 2|}, maxEntries = 2, cacheNonce = key_of 9\<rparr>
     (key_of 7) [48] [1] (Some (key_of 1)) [key_of 2, key_of 1]) = {|key_of 1|} \<and>
   {|key_of 1|} \<noteq> {|key_of 1, key_of 2|} \<and>
   fcard {|key_of 1, key_of 2 :: sigKey|} = 2 \<and>
   fcard {|key_of 1 :: sigKey|} = 1"
proof -
  have "range_order {|key_of 1, key_of 2|} [key_of 2, key_of 1]"
    by (auto simp: range_order_def)
  then show ?thesis
    by (simp add: SigCache_Add_def evictionNeeded_def zeroEntry_key_of fset_eval)
qed

text \<open>
  C5: when an \<open>Add\<close> needs an eviction and reading the random source fails, the call
  returns with the store unchanged: nothing is inserted and nothing is evicted. \<open>Add\<close>
  has no result besides the store, so no error reaches the caller.
\<close>

theorem Add_rand_failure_unchanged:
  "evictionNeeded s \<Longrightarrow> SigCache_Add P s sigHash sig pubKey None order = s"
  by (simp add: SigCache_Add_def)

theorem Add_rand_failure_unchanged_witness:
  "evictionNeeded \<lparr>validSigs = {|key_of 1|}, maxEntries = 1, cacheNonce = key_of 9\<rparr> \<and>
   SigCache_Add example_primitives
     \<lparr>validSigs = {|key_of 1|}, maxEntries = 1, cacheNonce = key_of 9\<rparr>
     (key_of 7) [48] [2] None [key_of 1] =
   \<lparr>validSigs = {|key_of 1|}, maxEntries = 1, cacheNonce = key_of 9\<rparr>"
proof -
  have h: "evictionNeeded \<lparr>validSigs = {|key_of 1|}, maxEntries = 1, cacheNonce = key_of 9\<rparr>"
    by (simp add: evictionNeeded_def fset_eval)
  show ?thesis
    using h Add_rand_failure_unchanged [OF h, of example_primitives "key_of 7" "[48]" "[2]" "[key_of 1]"]
    by simp
qed

text \<open>
  C6: with \<open>maxEntries = 0\<close> every \<open>Add\<close> returns the store as it was, and on a store
  built by \<open>NewSigCache\<close> with \<open>maxEntries = 0\<close> every \<open>Exists\<close> returns false after any
  sequence of \<open>Add\<close> calls.
\<close>

theorem disabled_cache_inert:
  "(maxEntries s = 0 \<longrightarrow> SigCache_Add P s sigHash sig pubKey rnd order = s) \<and>
   (NewSigCache 0 nonce = Inr s0 \<longrightarrow>
      \<not> SigCache_Exists P (SigCache_Adds P s0 calls) sigHash' sig' pubKey')"
proof (intro conjI impI)
  assume "maxEntries s = 0"
  then show "SigCache_Add P s sigHash sig pubKey rnd order = s"
    by (rule SigCache_Add_disabled)
next
  assume new: "NewSigCache 0 nonce = Inr s0"
  then have "maxEntries s0 = 0" and empty: "validSigs s0 = {||}"
    by (auto simp: NewSigCache_def split: option.splits)
  then have "SigCache_Adds P s0 calls = s0"
    by (simp add: SigCache_Adds_disabled)
  with empty show "\<not> SigCache_Exists P (SigCache_Adds P s0 calls) sigHash' sig' pubKey'"
    by (simp add: SigCache_Exists_def)
qed

theorem disabled_cache_inert_witness:
  "maxEntries \<lparr>validSigs = {||}, maxEntries = 0, cacheNonce = key_of 9\<rparr> = 0 \<and>
   SigCache_Add example_primitives \<lparr>validSigs = {||}, maxEntries = 0, cacheNonce = key_of 9\<rparr>
     (key_of 7) [48] [3] (Some (key_of 1)) [] =
     \<lparr>validSigs = {||}, maxEntries = 0, cacheNonce = key_of 9\<rparr> \<and>
   NewSigCache 0 (Some (key_of 9)) =
     Inr \<lparr>validSigs = {||}, maxEntries = 0, cacheNonce = key_of 9\<rparr> \<and>
   \<not> SigCache_Exists example_primitives
     (SigCache_Adds example_primitives \<lparr>validSigs = {||}, maxEntries = 0, cacheNonce = key_of 9\<rparr>
        [\<lparr>arg_sigHash = key_of 7, arg_sig = [48], arg_pubKey = [3],
          env_rnd = Some (key_of 1), env_order = []\<rparr>])
     (key_of 7) [48] [3]"
proof -
  let ?s = "\<lparr>validSigs = {||}, maxEntries = 0, cacheNonce = key_of 9\<rparr>"
  have a: "maxEntries ?s = 0" by simp
  have b: "NewSigCache 0 (Some (key_of 9)) = Inr ?s" by (simp add: NewSigCache_def)
  from a b disabled_cache_inert [of ?s example_primitives "key_of 7" "[48]" "[3]"
      "Some (key_of 1)" "[]" "Some (key_of 9)" ?s
      "[\<lparr>arg_sigHash = key_of 7, arg_sig = [48], arg_pubKey = [3],
          env_rnd = Some (key_of 1), env_order = []\<rparr>]" "key_of 7" "[48]" "[3]"]
  show ?thesis by blast
qed

text \<open>
  C7: when the hash function returns 32 bytes, as SHA-256 does, the key derived from a
  nonce, a digest, a signature and a public key is the hash of
  nonce || digest || serialised signature || compressed public key, in the array variant
  and in the string variant alike; it is a function of these inputs only. \<open>Exists\<close>
  looks up this key, and \<open>Add\<close> inserts this key, both with the nonce of the store.
\<close>

theorem key_derivation:
  assumes "\<forall>bs. length (sha256 P bs) = HashSize"
  shows "newSigKey P nonce sigHash sig pubKey =
           sha256 P (nonce @ sigHash @ Serialize P sig @ SerializeCompressed P pubKey) \<and>
         newSigKeyString P nonce sigHash sig pubKey =
           sha256 P (nonce @ sigHash @ Serialize P sig @ SerializeCompressed P pubKey) \<and>
         (SigCache_Exists P s sigHash sig pubKey \<longleftrightarrow>
            sha256 P (cacheNonce s @ sigHash @ Serialize P sig @ SerializeCompressed P pubKey)
              |\<in>| validSigs s) \<and>
         (maxEntries s \<noteq> 0 \<and> (\<not> evictionNeeded s \<or> rnd \<noteq> None) \<longrightarrow>
            sha256 P (cacheNonce s @ sigHash @ Serialize P sig @ SerializeCompressed P pubKey)
              |\<in>| validSigs (SigCache_Add P s sigHash sig pubKey rnd order))"
proof -
  have key: "newSigKey P n sigHash sig pubKey =
      sha256 P (n @ sigHash @ Serialize P sig @ SerializeCompressed P pubKey)" for n
    using assms by (simp add: newSigKey_def copy_key_def)
  have str: "newSigKeyString P nonce sigHash sig pubKey =
      sha256 P (nonce @ sigHash @ Serialize P sig @ SerializeCompressed P pubKey)"
    by (simp add: newSigKeyString_def)
  have ex: "SigCache_Exists P s sigHash sig pubKey \<longleftrightarrow>
      sha256 P (cacheNonce s @ sigHash @ Serialize P sig @ SerializeCompressed P pubKey)
        |\<in>| validSigs s"
    by (simp add: SigCache_Exists_def key)
  have add: "maxEntries s \<noteq> 0 \<and> (\<not> evictionNeeded s \<or> rnd \<noteq> None) \<longrightarrow>
      sha256 P (cacheNonce s @ sigHash @ Serialize P sig @ SerializeCompressed P pubKey)
        |\<in>| validSigs (SigCache_Add P s sigHash sig pubKey rnd order)"
    by (auto simp: SigCache_Add_def Let_def key split: option.split)
  from key str ex add show ?thesis by blast
qed

theorem key_derivation_witness:
  "(\<forall>bs. length (sha256 example_primitives bs) = HashSize) \<and>
   newSigKey example_primitives (key_of 9) (key_of 7) [48] [3] =
     sha256 example_primitives (key_of 9 @ key_of 7 @ [48] @ [3]) \<and>
   newSigKey example_primitives (key_of 9) (key_of 7) [48] [3] = key_of 3"
proof -
  have h: "\<forall>bs. length (sha256 example_primitives bs) = HashSize"
    by (simp add: example_primitives_def)
  have k: "newSigKey example_primitives (key_of 9) (key_of 7) [48] [3] = key_of 3"
    by simp
  have ser: "Serialize example_primitives [48] = [48]"
    "SerializeCompressed example_primitives [3] = [3]"
    by (simp_all add: example_primitives_def)
  from key_derivation [OF h, of "key_of 9" "key_of 7" "[48]" "[3]"] h k
  show ?thesis by (simp add: ser)
qed







text \<open>
  C10: in the scan of \<open>SigCache.Add\<close>, when the random read succeeds, no resident key
  compares greater than the draw, the first entry visited is the all-zero key and another
  entry follows, the entry evicted is not the all-zero entry visited first but the entry
  visited next, the first one whose key differs from the zero value; the all-zero entry
  stays in the store.
\<close>

theorem scan_passes_over_zero_key:
  assumes "range_order (validSigs s) (zeroEntry # k # rest)"
    and "\<forall>e \<in> set (zeroEntry # k # rest). \<not> bytes_Compare e r > 0"
    and "maxEntries s \<noteq> 0" and "evictionNeeded s"
  shows "SigCache_scan zeroEntry r (zeroEntry # k # rest) = k \<and> k \<noteq> zeroEntry \<and>
         validSigs (SigCache_Add P s sigHash sig pubKey (Some r) (zeroEntry # k # rest)) =
           finsert (newSigKey P (cacheNonce s) sigHash sig pubKey) (validSigs s |-| {|k|}) \<and>
         zeroEntry |\<in>| validSigs s |-| {|k|}"
proof -
  from assms(1) have k: "k \<noteq> zeroEntry" and z: "zeroEntry |\<in>| validSigs s"
    by (auto simp: range_order_def)
  from assms(2) have "\<forall>e \<in> set rest. \<not> bytes_Compare e r > 0" by simp
  with k have "SigCache_scan k r rest = k"
    by (rule SigCache_scan_none_greater)
  with assms(2) have scan: "SigCache_scan zeroEntry r (zeroEntry # k # rest) = k"
    by (simp add: Let_def)
  from assms(3,4) have "validSigs (SigCache_Add P s sigHash sig pubKey (Some r) (zeroEntry # k # rest)) =
      finsert (newSigKey P (cacheNonce s) sigHash sig pubKey)
        (validSigs s |-| {|SigCache_scan zeroEntry r (zeroEntry # k # rest)|})"
    by (rule SigCache_Add_evict)
  with scan k z show ?thesis by auto
qed

theorem scan_passes_over_zero_key_witness:
  "range_order (validSigs \<lparr>validSigs = {|key_of 0, key_of 1|}, maxEntries = 2, cacheNonce = key_of 9\<rparr>)
     (key_of 0 # key_of 1 # []) \<and>
   SigCache_scan (key_of 0) (key_of 255) (key_of 0 # key_of 1 # []) = key_of 1 \<and>
   validSigs (SigCache_Add example_primitives
       \<lparr>validSigs = {|key_of 0, key_of 1|}, maxEntries = 2, cacheNonce = key_of 9\<rparr>
       (key_of 7) [48] [3] (Some (key_of 255)) (key_of 0 # key_of 1 # [])) =
     {|key_of 3, key_of 0|}"
proof -
  let ?s = "\<lparr>validSigs = {|key_of 0, key_of 1|}, maxEntries = 2, cacheNonce = key_of 9\<rparr>"
  have h1: "range_order (validSigs ?s) (key_of 0 # key_of 1 # [])"
    by (simp add: range_order_def)
  have h2: "\<forall>e \<in> set (key_of 0 # key_of 1 # []). \<not> bytes_Compare e (key_of 255) > 0"
    by simp
  have h3: "maxEntries ?s \<noteq> 0" by simp
  have h4: "evictionNeeded ?s" by (simp add: evictionNeeded_def fset_eval)
  note t = scan_passes_over_zero_key [unfolded zeroEntry_key_of, OF h1 h2 h3 h4,
      of example_primitives "key_of 7" "[48]" "[3]"]
  have "finsert (newSigKey example_primitives (cacheNonce ?s) (key_of 7) [48] [3])
      (validSigs ?s |-| {|key_of 1|}) = {|key_of 3, key_of 0|}"
    by (simp add: fset_eval)
  with t h1 show ?thesis by metis
qed

end
